theory Spec2Isabelle
  imports Complex_Main
begin

section \<open>The scroll-triggered reveal animation of the landing page\<close>

text \<open>
  The page wraps each section in \<open>ScrollAnimatedView\<close>, which calls the hook
  \<open>useScrollAnimation(delay, scrollY)\<close> (src/App.tsx, lines 233-333; the same hook
  is in src/unnamed/part_000, lines 216-323). The hook keeps two pieces of React state,
  \<open>isVisible\<close> and \<open>layoutY\<close>, owns one \<open>Animated.Value\<close> and registers, in one
  effect, either an \<open>IntersectionObserver\<close> (web), a timeout of 80 ms (no scroll
  signal) or a listener on the scroll signal.

  JavaScript numbers are modelled as \<open>real\<close>; instants of the clock are natural
  numbers of milliseconds since the component was mounted.

  The host is modelled as follows. Every callback the host invokes (layout, scroll
  listener, observer callback, timeout) runs to completion with the closures of the
  last render, that is, with the values of \<open>isVisible\<close> and \<open>layoutY\<close> that render
  saw; a state setter takes effect at the re-render that follows the callback. The
  re-render runs the cleanup of the previous effect and then the effect again whenever
  one of the dependencies \<open>[scrollY, layoutY, isVisible, delay]\<close> has changed, and
  this happens before the host delivers the next event.
\<close>

subsection \<open>Arguments and host capabilities\<close>

record config =
  web :: bool               \<comment> \<open>\<open>Platform.OS === "web"\<close>\<close>
  delay :: real             \<comment> \<open>first argument of the hook\<close>
  scrollY :: bool           \<comment> \<open>whether an \<open>Animated.Value\<close> was passed as second argument\<close>
  windowHeight :: real      \<comment> \<open>\<open>Dimensions.get("window").height\<close>\<close>
  viewRefCurrent :: bool    \<comment> \<open>whether \<open>viewRef.current\<close> is set when the effect runs\<close>

subsection \<open>State of one hook instance\<close>

text \<open>
  What the last run of the effect left registered with the host, which is what its
  cleanup function undoes. \<open>Observer b\<close>: an observer exists, and \<open>b\<close> tells whether it
  still observes the view (\<open>observe\<close> was called and \<open>disconnect\<close> was not).
  \<open>Timer due\<close>: a timeout is pending for the instant \<open>due\<close>. \<open>TimerSpent\<close>: the timeout
  has fired. \<open>Listener\<close>: a listener is registered on the scroll signal.
  \<open>NoCleanup\<close>: the effect returned without a cleanup function.
\<close>

datatype registration = NoCleanup | Observer bool | Timer nat | TimerSpent | Listener

record hook =
  isVisible :: bool
  layoutY :: "real option"
  timings :: "nat list"     \<comment> \<open>instants of the calls of \<open>Animated.timing(...).start()\<close>, latest first\<close>
  registered :: registration
  mounted :: bool
  now :: nat
  stopped :: "nat option"   \<comment> \<open>the instant at which the animation of \<open>animValue\<close> was stopped\<close>

datatype event =
    Layout real             \<comment> \<open>\<open>onLayout\<close> with \<open>e.nativeEvent.layout.y\<close>\<close>
  | Scroll real             \<comment> \<open>the scroll signal notifies its listeners of a value\<close>
  | Intersect "bool list"   \<comment> \<open>the observer's callback, \<open>isIntersecting\<close> of each entry\<close>
  | Fire                    \<comment> \<open>the pending timeout runs its callback\<close>
  | Elapse nat              \<comment> \<open>time passes\<close>
  | Unmount                 \<comment> \<open>the component is unmounted\<close>

subsection \<open>The hook of src/App.tsx\<close>

text \<open>
  \<open>animateIn\<close> (lines 239-249). Its first argument is the value of \<open>isVisible\<close>
  captured by the closure; the state it updates is the second.
\<close>

definition animateIn :: "bool \<Rightarrow> hook \<Rightarrow> hook" where
  "animateIn isVisible_c h =
     (if isVisible_c then h
      else h\<lparr>isVisible := True, timings := now h # timings h\<rparr>)"

text \<open>\<open>onLayout\<close> (lines 251-253).\<close>

definition onLayout :: "real \<Rightarrow> hook \<Rightarrow> hook" where
  "onLayout y h = h\<lparr>layoutY := Some y\<rparr>"

text \<open>\<open>checkAndAnimate\<close> (lines 293-299), with the captured \<open>isVisible\<close>, \<open>layoutY\<close>
  and \<open>screenHeight\<close>.\<close>

definition checkAndAnimate :: "bool \<Rightarrow> real option \<Rightarrow> real \<Rightarrow> real \<Rightarrow> hook \<Rightarrow> hook" where
  "checkAndAnimate isVisible_c layoutY_c screenHeight scrollValue h =
     (case layoutY_c of
        None \<Rightarrow> h
      | Some y \<Rightarrow>
          if isVisible_c then h
          else
            let buffer = screenHeight * 0.1;
                visibleBottom = scrollValue + screenHeight
            in if visibleBottom \<ge> y + buffer then animateIn isVisible_c h else h)"

text \<open>The callback given to the \<open>IntersectionObserver\<close> (lines 260-267): for each
  entry in turn, an intersecting one calls \<open>animateIn\<close> and disconnects the observer.\<close>

fun observerCallback :: "bool \<Rightarrow> bool list \<Rightarrow> hook \<Rightarrow> hook" where
  "observerCallback isVisible_c [] h = h"
| "observerCallback isVisible_c (isIntersecting # entries) h =
     observerCallback isVisible_c entries
       (if isIntersecting then (animateIn isVisible_c h)\<lparr>registered := Observer False\<rparr> else h)"

text \<open>The body of the effect (lines 255-312), run with the values of the render.\<close>

definition effect :: "config \<Rightarrow> bool \<Rightarrow> real option \<Rightarrow> hook \<Rightarrow> hook" where
  "effect cfg isVisible_c layoutY_c h =
     (if web cfg then
        (if isVisible_c then h\<lparr>registered := NoCleanup\<rparr>
         else h\<lparr>registered := Observer (viewRefCurrent cfg)\<rparr>)
      else if \<not> scrollY cfg then h\<lparr>registered := Timer (now h + 80)\<rparr>
      else if isVisible_c then h\<lparr>registered := NoCleanup\<rparr>
      else
        let screenHeight = windowHeight cfg;
            h1 = (if layoutY_c \<noteq> None
                  then checkAndAnimate isVisible_c layoutY_c screenHeight 0 h else h)
        in h1\<lparr>registered := Listener\<rparr>)"

text \<open>The cleanup functions returned by the effect: \<open>observer.disconnect()\<close>,
  \<open>clearTimeout(t)\<close>, \<open>scrollY.removeListener(id)\<close>. Each leaves nothing registered.\<close>

definition cleanup :: "hook \<Rightarrow> hook" where
  "cleanup h = h\<lparr>registered := NoCleanup\<rparr>"

text \<open>
  The re-render after a callback. Its arguments are the values the previous render
  saw. When they are unchanged, nothing happens; otherwise the cleanup and the effect
  run, and the effect's own state update is rendered in turn.
\<close>

function rerender :: "config \<Rightarrow> bool \<Rightarrow> real option \<Rightarrow> hook \<Rightarrow> hook" where
  "rerender cfg isVisible_p layoutY_p h =
     (if isVisible h = isVisible_p \<and> layoutY h = layoutY_p then h
      else rerender cfg (isVisible h) (layoutY h)
             (effect cfg (isVisible h) (layoutY h) (cleanup h)))"
  by pat_completeness auto

termination rerender
proof (relation "measure (\<lambda>(cfg, v, l, h).
         if isVisible h = v \<and> layoutY h = l then 0 else if isVisible h then 1 else 2)",
       goal_cases)
  case 1
  show ?case by simp
next
  case (2 cfg v l h)
  have "layoutY (effect cfg (isVisible h) (layoutY h) (cleanup h)) = layoutY h"
    by (auto simp: effect_def checkAndAnimate_def animateIn_def cleanup_def Let_def
             split: option.splits)
  moreover have "isVisible h \<Longrightarrow> isVisible (effect cfg (isVisible h) (layoutY h) (cleanup h))"
    by (auto simp: effect_def checkAndAnimate_def animateIn_def cleanup_def Let_def
             split: option.splits)
  ultimately show ?case using 2 by auto
qed

text \<open>
  The callback that the host invokes for an event, if it is registered. On unmount
  React runs the cleanup of the effect, and the \<open>Animated.View\<close> that
  \<open>ScrollAnimatedView\<close> renders with \<open>animationStyle\<close> (lines 346-353) unmounts with the
  component: the \<open>Animated\<close> library then stops the animation of \<open>animValue\<close>, which
  keeps the value it has at that instant.
\<close>

fun handle :: "config \<Rightarrow> event \<Rightarrow> hook \<Rightarrow> hook" where
  "handle cfg (Layout y) h = onLayout y h"
| "handle cfg (Scroll v) h =
     (if registered h = Listener
      then checkAndAnimate (isVisible h) (layoutY h) (windowHeight cfg) v h else h)"
| "handle cfg (Intersect entries) h =
     (if registered h = Observer True then observerCallback (isVisible h) entries h else h)"
| "handle cfg Fire h =
     (case registered h of
        Timer due \<Rightarrow>
          if due \<le> now h then animateIn (isVisible h) (h\<lparr>registered := TimerSpent\<rparr>) else h
      | _ \<Rightarrow> h)"
| "handle cfg (Elapse n) h = h\<lparr>now := now h + n\<rparr>"
| "handle cfg Unmount h = (cleanup h)\<lparr>mounted := False, stopped := Some (now h)\<rparr>"

text \<open>One event: on a mounted component the callback runs and the component
  re-renders; on an unmounted one only time passes.\<close>

definition step :: "config \<Rightarrow> event \<Rightarrow> hook \<Rightarrow> hook" where
  "step cfg ev h =
     (if mounted h then
        (case ev of
           Unmount \<Rightarrow> handle cfg Unmount h
         | _ \<Rightarrow> rerender cfg (isVisible h) (layoutY h) (handle cfg ev h))
      else
        (case ev of Elapse n \<Rightarrow> h\<lparr>now := now h + n\<rparr> | _ \<Rightarrow> h))"

text \<open>Mounting: the initial state of lines 234-236, then the first run of the effect.\<close>

definition mount :: "config \<Rightarrow> hook" where
  "mount cfg =
     (let h0 = \<lparr>isVisible = False, layoutY = None, timings = [], registered = NoCleanup,
                mounted = True, now = 0, stopped = None\<rparr>
      in rerender cfg False None (effect cfg False None h0))"

fun run_from :: "config \<Rightarrow> hook \<Rightarrow> event list \<Rightarrow> hook" where
  "run_from cfg h [] = h"
| "run_from cfg h (ev # evs) = run_from cfg (step cfg ev h) evs"

definition run :: "config \<Rightarrow> event list \<Rightarrow> hook" where
  "run cfg evs = run_from cfg (mount cfg) evs"

subsection \<open>The animated value and the style\<close>

text \<open>
  The library functions the hook calls. \<open>Easing.cubic\<close> is the cube, \<open>Easing.out f\<close>
  runs \<open>f\<close> backwards. A timing started at instant \<open>t0\<close> from the value \<open>fromValue\<close>
  keeps that value during the delay, then moves to \<open>toValue\<close> along the easing curve
  over \<open>duration\<close> milliseconds. \<open>interpolate\<close> maps the input range linearly onto the
  output range.
\<close>

definition Easing_cubic :: "real \<Rightarrow> real" where
  "Easing_cubic t = t * t * t"

definition Easing_out :: "(real \<Rightarrow> real) \<Rightarrow> real \<Rightarrow> real" where
  "Easing_out easing t = 1 - easing (1 - t)"

definition Animated_timing ::
  "real \<Rightarrow> real \<Rightarrow> real \<Rightarrow> (real \<Rightarrow> real) \<Rightarrow> real \<Rightarrow> nat \<Rightarrow> nat \<Rightarrow> real" where
  "Animated_timing toValue duration delay_ms easing fromValue t0 t =
     (let elapsed = real t - (real t0 + max 0 delay_ms)
      in if elapsed < 0 then fromValue
         else if elapsed \<ge> duration then fromValue + easing 1 * (toValue - fromValue)
         else fromValue + easing (elapsed / duration) * (toValue - fromValue))"

definition interpolate :: "real \<times> real \<Rightarrow> real \<times> real \<Rightarrow> real \<Rightarrow> real" where
  "interpolate inputRange outputRange x =
     (case (inputRange, outputRange) of
        ((inMin, inMax), (outMin, outMax)) \<Rightarrow>
          outMin + (x - inMin) * (outMax - outMin) / (inMax - inMin))"

text \<open>
  The value of \<open>animValue\<close> at instant \<open>t\<close>: initially 0 (line 236); each call of
  \<open>start()\<close> in \<open>animateIn\<close> (lines 242-248) begins a timing to 1 over 800 ms, after
  \<open>delay\<close>, with \<open>Easing.out(Easing.cubic)\<close>, from the value reached at that instant.
  The hook itself never stops a timing it has started; the library does when the
  view unmounts, and from then on the value is the one reached at that instant.
\<close>

fun animValue_at :: "real \<Rightarrow> nat list \<Rightarrow> nat \<Rightarrow> real" where
  "animValue_at d [] t = 0"
| "animValue_at d (t0 # earlier) t =
     Animated_timing 1 800 d (Easing_out Easing_cubic) (animValue_at d earlier t0) t0 t"

definition animValue :: "config \<Rightarrow> hook \<Rightarrow> real" where
  "animValue cfg h =
     animValue_at (delay cfg) (timings h) (case stopped h of None \<Rightarrow> now h | Some t \<Rightarrow> t)"

record style =
  opacity :: real
  translateY :: real

text \<open>\<open>animationStyle\<close> (lines 314-324), as a function of the current value of
  \<open>animValue\<close>.\<close>

definition animationStyle :: "real \<Rightarrow> style" where
  "animationStyle v = \<lparr>opacity = v, translateY = interpolate (0, 1) (60, 0) v\<rparr>"

subsection \<open>\<open>ScrollAnimatedView\<close> and \<open>StaggeredScrollAnimation\<close>\<close>

record host =
  host_web :: bool
  host_windowHeight :: real

text \<open>\<open>ScrollAnimatedView\<close> (lines 338-355) calls the hook with its props \<open>delay\<close>
  (default 0) and \<open>scrollY\<close>, and attaches \<open>viewRef\<close> to the view it renders.\<close>

definition ScrollAnimatedView :: "host \<Rightarrow> real option \<Rightarrow> bool \<Rightarrow> config" where
  "ScrollAnimatedView hst delay_prop scrollY_prop =
     \<lparr>web = host_web hst,
      delay = (case delay_prop of None \<Rightarrow> 0 | Some d \<Rightarrow> d),
      scrollY = scrollY_prop,
      windowHeight = host_windowHeight hst,
      viewRefCurrent = True\<rparr>"

text \<open>\<open>StaggeredScrollAnimation\<close> (lines 357-378): one \<open>ScrollAnimatedView\<close> per child,
  in order, with \<open>delay = index * itemDelay\<close>; \<open>itemDelay\<close> defaults to 100.\<close>

definition StaggeredScrollAnimation ::
  "host \<Rightarrow> real option \<Rightarrow> bool \<Rightarrow> 'a list \<Rightarrow> (config \<times> 'a) list" where
  "StaggeredScrollAnimation hst itemDelay_prop scrollY_prop children =
     (let itemDelay = (case itemDelay_prop of None \<Rightarrow> 100 | Some d \<Rightarrow> d)
      in map (\<lambda>(index, child).
                (ScrollAnimatedView hst (Some (real index * itemDelay)) scrollY_prop, child))
             (enumerate 0 children))"

text \<open>
  A group of hook instances, one per rendered child. The host delivers an event either
  to one child (its layout, its observer, its timeout, its unmounting) or to all of
  them (the shared scroll signal, the clock).
\<close>

datatype delivery = ToChild nat event | ToAll event

fun group_step :: "config list \<Rightarrow> delivery \<Rightarrow> hook list \<Rightarrow> hook list" where
  "group_step cfgs (ToChild i ev) hs =
     (if i < length hs \<and> i < length cfgs then hs[i := step (cfgs ! i) ev (hs ! i)] else hs)"
| "group_step cfgs (ToAll ev) hs = map (\<lambda>(cfg, h). step cfg ev h) (zip cfgs hs)"

fun group_run_from :: "config list \<Rightarrow> hook list \<Rightarrow> delivery list \<Rightarrow> hook list" where
  "group_run_from cfgs hs [] = hs"
| "group_run_from cfgs hs (d # ds) = group_run_from cfgs (group_step cfgs d hs) ds"

definition group_run :: "config list \<Rightarrow> delivery list \<Rightarrow> hook list" where
  "group_run cfgs ds = group_run_from cfgs (map mount cfgs) ds"

text \<open>The events of a delivery that reach child \<open>j\<close>.\<close>

fun reaching :: "nat \<Rightarrow> delivery \<Rightarrow> event list" where
  "reaching j (ToChild i ev) = (if i = j then [ev] else [])"
| "reaching j (ToAll ev) = [ev]"

subsection \<open>The contact form\<close>

record form =
  name :: string
  email :: string
  company :: string
  budget :: string
  message :: string

datatype alert = Alert string string

text \<open>\<open>handleSubmit\<close> (lines 506-519). A string is falsy exactly when it is empty.
  The result is the alert shown and the form state after the call.\<close>

definition handleSubmit :: "form \<Rightarrow> alert \<times> form" where
  "handleSubmit f =
     (if email f = [] \<or> message f = [] then
        (Alert ''Missing info'' ''Please add at least your email and project details.'', f)
      else
        (Alert ''Brief sent''
           (''We'' @ [CHR 0x27] @ ''ll review your project and reply within one business day.''),
         \<lparr>name = [], email = [], company = [], budget = [], message = []\<rparr>))"

subsection \<open>Traces\<close>

text \<open>The states a hook instance goes through, and the number of times a flag rises
  from false to true, or falls from true to false, along a list.\<close>

fun trace_from :: "config \<Rightarrow> hook \<Rightarrow> event list \<Rightarrow> hook list" where
  "trace_from cfg h [] = [h]"
| "trace_from cfg h (ev # evs) = h # trace_from cfg (step cfg ev h) evs"

fun rises :: "bool list \<Rightarrow> nat" where
  "rises (a # b # bs) = (if \<not> a \<and> b then 1 else 0) + rises (b # bs)"
| "rises bs = 0"

fun falls :: "bool list \<Rightarrow> nat" where
  "falls (a # b # bs) = (if a \<and> \<not> b then 1 else 0) + falls (b # bs)"
| "falls bs = 0"

text \<open>The time that passes during a list of events.\<close>

fun elapsed :: "event list \<Rightarrow> nat" where
  "elapsed [] = 0"
| "elapsed (Elapse n # evs) = n + elapsed evs"
| "elapsed (ev # evs) = elapsed evs"

fun is_Layout :: "event \<Rightarrow> bool" where
  "is_Layout (Layout y) = True"
| "is_Layout ev = False"

text \<open>Whether an event is a scroll update whose offset satisfies the comparison of
  \<open>checkAndAnimate\<close> for a view at position \<open>y\<close> in a window of height \<open>H\<close>.\<close>

fun reaches :: "real \<Rightarrow> real \<Rightarrow> event \<Rightarrow> bool" where
  "reaches H y (Scroll s) = (s + H \<ge> y + H * 0.1)"
| "reaches H y ev = False"

subsection \<open>The hook of src/unnamed/part_000\<close>

text \<open>The second variant of the page carries its own copy of the hook (lines
  216-323) and of \<open>handleSubmit\<close> (lines 484-497). They are translated here from
  that file, function by function.\<close>

text \<open>\<open>animateIn\<close> (lines 222-232).\<close>

definition animateIn_p0 :: "bool \<Rightarrow> hook \<Rightarrow> hook" where
  "animateIn_p0 isVisible_c h =
     (if isVisible_c then h
      else h\<lparr>isVisible := True, timings := now h # timings h\<rparr>)"

text \<open>\<open>onLayout\<close> (lines 235-237).\<close>

definition onLayout_p0 :: "real \<Rightarrow> hook \<Rightarrow> hook" where
  "onLayout_p0 y h = h\<lparr>layoutY := Some y\<rparr>"

text \<open>\<open>checkAndAnimate\<close> (lines 281-288).\<close>

definition checkAndAnimate_p0 :: "bool \<Rightarrow> real option \<Rightarrow> real \<Rightarrow> real \<Rightarrow> hook \<Rightarrow> hook" where
  "checkAndAnimate_p0 isVisible_c layoutY_c screenHeight scrollValue h =
     (case layoutY_c of
        None \<Rightarrow> h
      | Some y \<Rightarrow>
          if isVisible_c then h
          else
            let buffer = screenHeight * 0.1;
                visibleBottom = scrollValue + screenHeight
            in if visibleBottom \<ge> y + buffer then animateIn_p0 isVisible_c h else h)"

text \<open>The observer's callback (lines 245-252).\<close>

fun observerCallback_p0 :: "bool \<Rightarrow> bool list \<Rightarrow> hook \<Rightarrow> hook" where
  "observerCallback_p0 isVisible_c [] h = h"
| "observerCallback_p0 isVisible_c (isIntersecting # entries) h =
     observerCallback_p0 isVisible_c entries
       (if isIntersecting then (animateIn_p0 isVisible_c h)\<lparr>registered := Observer False\<rparr>
        else h)"

text \<open>The body of the effect (lines 239-302).\<close>

definition effect_p0 :: "config \<Rightarrow> bool \<Rightarrow> real option \<Rightarrow> hook \<Rightarrow> hook" where
  "effect_p0 cfg isVisible_c layoutY_c h =
     (if web cfg then
        (if isVisible_c then h\<lparr>registered := NoCleanup\<rparr>
         else h\<lparr>registered := Observer (viewRefCurrent cfg)\<rparr>)
      else if \<not> scrollY cfg then h\<lparr>registered := Timer (now h + 80)\<rparr>
      else if isVisible_c then h\<lparr>registered := NoCleanup\<rparr>
      else
        let screenHeight = windowHeight cfg;
            h1 = (if layoutY_c \<noteq> None
                  then checkAndAnimate_p0 isVisible_c layoutY_c screenHeight 0 h else h)
        in h1\<lparr>registered := Listener\<rparr>)"

text \<open>Its cleanup functions (lines 264, 273 and 299-301).\<close>

definition cleanup_p0 :: "hook \<Rightarrow> hook" where
  "cleanup_p0 h = h\<lparr>registered := NoCleanup\<rparr>"

text \<open>The re-render, the callbacks and the runs, as for the first variant; the
  \<open>Animated.View\<close> whose unmounting stops the value is that of lines 340-346.\<close>

function rerender_p0 :: "config \<Rightarrow> bool \<Rightarrow> real option \<Rightarrow> hook \<Rightarrow> hook" where
  "rerender_p0 cfg isVisible_p layoutY_p h =
     (if isVisible h = isVisible_p \<and> layoutY h = layoutY_p then h
      else rerender_p0 cfg (isVisible h) (layoutY h)
             (effect_p0 cfg (isVisible h) (layoutY h) (cleanup_p0 h)))"
  by pat_completeness auto

termination rerender_p0
proof (relation "measure (\<lambda>(cfg, v, l, h).
         if isVisible h = v \<and> layoutY h = l then 0 else if isVisible h then 1 else 2)",
       goal_cases)
  case 1
  show ?case by simp
next
  case (2 cfg v l h)
  have "layoutY (effect_p0 cfg (isVisible h) (layoutY h) (cleanup_p0 h)) = layoutY h"
    by (auto simp: effect_p0_def checkAndAnimate_p0_def animateIn_p0_def cleanup_p0_def Let_def
             split: option.splits)
  moreover have "isVisible h \<Longrightarrow>
      isVisible (effect_p0 cfg (isVisible h) (layoutY h) (cleanup_p0 h))"
    by (auto simp: effect_p0_def checkAndAnimate_p0_def animateIn_p0_def cleanup_p0_def Let_def
             split: option.splits)
  ultimately show ?case using 2 by auto
qed

fun handle_p0 :: "config \<Rightarrow> event \<Rightarrow> hook \<Rightarrow> hook" where
  "handle_p0 cfg (Layout y) h = onLayout_p0 y h"
| "handle_p0 cfg (Scroll v) h =
     (if registered h = Listener
      then checkAndAnimate_p0 (isVisible h) (layoutY h) (windowHeight cfg) v h else h)"
| "handle_p0 cfg (Intersect entries) h =
     (if registered h = Observer True then observerCallback_p0 (isVisible h) entries h else h)"
| "handle_p0 cfg Fire h =
     (case registered h of
        Timer due \<Rightarrow>
          if due \<le> now h then animateIn_p0 (isVisible h) (h\<lparr>registered := TimerSpent\<rparr>) else h
      | _ \<Rightarrow> h)"
| "handle_p0 cfg (Elapse n) h = h\<lparr>now := now h + n\<rparr>"
| "handle_p0 cfg Unmount h = (cleanup_p0 h)\<lparr>mounted := False, stopped := Some (now h)\<rparr>"

definition step_p0 :: "config \<Rightarrow> event \<Rightarrow> hook \<Rightarrow> hook" where
  "step_p0 cfg ev h =
     (if mounted h then
        (case ev of
           Unmount \<Rightarrow> handle_p0 cfg Unmount h
         | _ \<Rightarrow> rerender_p0 cfg (isVisible h) (layoutY h) (handle_p0 cfg ev h))
      else
        (case ev of Elapse n \<Rightarrow> h\<lparr>now := now h + n\<rparr> | _ \<Rightarrow> h))"

definition mount_p0 :: "config \<Rightarrow> hook" where
  "mount_p0 cfg =
     (let h0 = \<lparr>isVisible = False, layoutY = None, timings = [], registered = NoCleanup,
                mounted = True, now = 0, stopped = None\<rparr>
      in rerender_p0 cfg False None (effect_p0 cfg False None h0))"

fun run_from_p0 :: "config \<Rightarrow> hook \<Rightarrow> event list \<Rightarrow> hook" where
  "run_from_p0 cfg h [] = h"
| "run_from_p0 cfg h (ev # evs) = run_from_p0 cfg (step_p0 cfg ev h) evs"

definition run_p0 :: "config \<Rightarrow> event list \<Rightarrow> hook" where
  "run_p0 cfg evs = run_from_p0 cfg (mount_p0 cfg) evs"

text \<open>The animated value (line 219 and the timing of lines 225-231) and
  \<open>animationStyle\<close> (lines 304-314).\<close>

fun animValue_at_p0 :: "real \<Rightarrow> nat list \<Rightarrow> nat \<Rightarrow> real" where
  "animValue_at_p0 d [] t = 0"
| "animValue_at_p0 d (t0 # earlier) t =
     Animated_timing 1 800 d (Easing_out Easing_cubic) (animValue_at_p0 d earlier t0) t0 t"

definition animValue_p0 :: "config \<Rightarrow> hook \<Rightarrow> real" where
  "animValue_p0 cfg h =
     animValue_at_p0 (delay cfg) (timings h) (case stopped h of None \<Rightarrow> now h | Some t \<Rightarrow> t)"

definition animationStyle_p0 :: "real \<Rightarrow> style" where
  "animationStyle_p0 v = \<lparr>opacity = v, translateY = interpolate (0, 1) (60, 0) v\<rparr>"

text \<open>\<open>handleSubmit\<close> (lines 484-497).\<close>

definition handleSubmit_p0 :: "form \<Rightarrow> alert \<times> form" where
  "handleSubmit_p0 f =
     (if email f = [] \<or> message f = [] then
        (Alert ''Missing info'' ''Please add at least your email and project details.'', f)
      else
        (Alert ''Brief sent''
           (''We'' @ [CHR 0x27] @ ''ll review your project and reply within one business day.''),
         \<lparr>name = [], email = [], company = [], budget = [], message = []\<rparr>))"

subsection \<open>Configurations used in the examples\<close>

definition native_scroll :: config where
  "native_scroll =
     \<lparr>web = False, delay = 0, scrollY = True, windowHeight = 800, viewRefCurrent = True\<rparr>"

definition native_fallback :: config where
  "native_fallback =
     \<lparr>web = False, delay = 0, scrollY = False, windowHeight = 800, viewRefCurrent = True\<rparr>"

definition web_observer :: config where
  "web_observer =
     \<lparr>web = True, delay = 0, scrollY = True, windowHeight = 800, viewRefCurrent = True\<rparr>"

definition native_delayed :: config where
  "native_delayed =
     \<lparr>web = False, delay = 300, scrollY = False, windowHeight = 800, viewRefCurrent = True\<rparr>"

subsection \<open>Auxiliary definitions for the proofs\<close>

text \<open>The state the re-render reaches once a dependency has changed: the effect has
  run again, and once more if its initial check made the view visible.\<close>

definition settle :: "config \<Rightarrow> hook \<Rightarrow> hook" where
  "settle cfg h =
     (if web cfg then
        h\<lparr>registered := (if isVisible h then NoCleanup else Observer (viewRefCurrent cfg))\<rparr>
      else if \<not> scrollY cfg then h\<lparr>registered := Timer (now h + 80)\<rparr>
      else if isVisible h then h\<lparr>registered := NoCleanup\<rparr>
      else
        (case layoutY h of
           None \<Rightarrow> h\<lparr>registered := Listener\<rparr>
         | Some y \<Rightarrow>
             if windowHeight cfg \<ge> y + windowHeight cfg * 0.1
             then h\<lparr>isVisible := True, timings := now h # timings h, registered := NoCleanup\<rparr>
             else h\<lparr>registered := Listener\<rparr>))"

text \<open>What is registered with the host in each reachable state, and the invariant of
  the runs: the view is visible exactly when a timing was started, no timing lies
  in the future, and off the web at most one timing is ever started.\<close>

definition registered_ok :: "config \<Rightarrow> hook \<Rightarrow> bool" where
  "registered_ok cfg h =
     (if \<not> mounted h then registered h = NoCleanup
      else if web cfg then
        registered h = (if isVisible h then NoCleanup else Observer (viewRefCurrent cfg))
      else if \<not> scrollY cfg then
        (case registered h of
           Timer due \<Rightarrow> 80 \<le> due \<and> due \<le> now h + 80
         | TimerSpent \<Rightarrow> isVisible h
         | _ \<Rightarrow> False)
      else registered h = (if isVisible h then NoCleanup else Listener))"

definition inv :: "config \<Rightarrow> hook \<Rightarrow> bool" where
  "inv cfg h =
     (registered_ok cfg h \<and> (isVisible h \<longleftrightarrow> timings h \<noteq> []) \<and>
      (\<forall>t \<in> set (timings h). t \<le> now h) \<and>
      (\<not> web cfg \<longrightarrow> length (timings h) \<le> 1) \<and>
      (\<not> web cfg \<and> \<not> scrollY cfg \<longrightarrow> (\<forall>t \<in> set (timings h). 80 \<le> t)))"

section \<open>Properties\<close>

subsection \<open>The re-render and the single events\<close>

lemmas hook_defs = effect_def cleanup_def onLayout_def checkAndAnimate_def animateIn_def

declare rerender.simps [simp del]

lemma effect_layoutY: "layoutY (effect cfg v l h) = layoutY h"
  by (auto simp: effect_def checkAndAnimate_def animateIn_def Let_def split: option.splits)

lemma effect_isVisible: "isVisible h \<Longrightarrow> isVisible (effect cfg v l h)"
  by (auto simp: effect_def checkAndAnimate_def animateIn_def Let_def split: option.splits)

lemma rerender_eq:
  "rerender cfg v l h =
     (if isVisible h = v \<and> layoutY h = l then h
      else let h' = effect cfg (isVisible h) (layoutY h) (cleanup h)
           in if isVisible h' = isVisible h then h'
              else effect cfg (isVisible h') (layoutY h') (cleanup h'))"
proof (cases "isVisible h = v \<and> layoutY h = l")
  case True
  then show ?thesis by (simp add: rerender.simps)
next
  case False
  define h' where "h' = effect cfg (isVisible h) (layoutY h) (cleanup h)"
  have l': "layoutY h' = layoutY h" by (simp add: h'_def effect_layoutY cleanup_def)
  define h'' where "h'' = effect cfg (isVisible h') (layoutY h') (cleanup h')"
  have l'': "layoutY h'' = layoutY h'" by (simp add: h''_def effect_layoutY cleanup_def)
  have v'': "isVisible h' \<Longrightarrow> isVisible h''"
    unfolding h''_def by (rule effect_isVisible) (simp add: cleanup_def)
  have 1: "rerender cfg v l h = rerender cfg (isVisible h) (layoutY h) h'"
    using False by (subst rerender.simps) (auto simp: h'_def)
  have 2: "rerender cfg (isVisible h) (layoutY h) h' =
           (if isVisible h' = isVisible h then h' else rerender cfg (isVisible h') (layoutY h') h'')"
    by (subst rerender.simps) (auto simp: l' h''_def)
  have 3: "isVisible h' \<noteq> isVisible h \<Longrightarrow> rerender cfg (isVisible h') (layoutY h') h'' = h''"
  proof -
    assume a: "isVisible h' \<noteq> isVisible h"
    have "isVisible h \<Longrightarrow> isVisible h'"
      unfolding h'_def by (rule effect_isVisible) (simp add: cleanup_def)
    with a have "isVisible h'" by auto
    then have "isVisible h'' = isVisible h'" using v'' by simp
    then show ?thesis using l'' by (subst rerender.simps) simp
  qed
  have r: "rerender cfg v l h = (if isVisible h' = isVisible h then h' else h'')"
    using 1 2 3 by simp
  show ?thesis by (simp only: r False if_False Let_def h''_def h'_def)
qed

lemma observerCallback_eq:
  "observerCallback c es h =
     (if True \<in> set es then
        (if c then h\<lparr>registered := Observer False\<rparr>
         else h\<lparr>isVisible := True,
                timings := replicate (length (filter id es)) (now h) @ timings h,
                registered := Observer False\<rparr>)
      else h)"
proof (induction es arbitrary: h)
  case Nil
  show ?case by simp
next
  case (Cons e es)
  have none: "True \<notin> set es \<Longrightarrow> filter id es = []"
    by (induction es) auto
  show ?case
    by (simp add: Cons.IH animateIn_def replicate_app_Cons_same none)
qed

lemma effect_settle:
  "(let h' = effect cfg (isVisible h) (layoutY h) (cleanup h)
    in if isVisible h' = isVisible h then h'
       else effect cfg (isVisible h') (layoutY h') (cleanup h')) = settle cfg h"
proof (cases "web cfg")
  case True
  then show ?thesis by (simp add: settle_def hook_defs Let_def)
next
  case nweb: False
  show ?thesis
  proof (cases "scrollY cfg")
    case False
    then show ?thesis using nweb by (simp add: settle_def hook_defs Let_def)
  next
    case sc: True
    show ?thesis
    proof (cases "isVisible h")
      case True
      then show ?thesis using nweb sc by (simp add: settle_def hook_defs Let_def)
    next
      case nv: False
      show ?thesis
      proof (cases "layoutY h")
        case None
        then show ?thesis using nweb sc nv by (simp add: settle_def hook_defs Let_def)
      next
        case (Some y)
        then show ?thesis using nweb sc nv by (simp add: settle_def hook_defs Let_def)
      qed
    qed
  qed
qed

lemma rerender_same: "isVisible h = v \<Longrightarrow> layoutY h = l \<Longrightarrow> rerender cfg v l h = h"
  by (simp add: rerender_eq)

lemma rerender_changed:
  "isVisible h \<noteq> v \<or> layoutY h \<noteq> l \<Longrightarrow> rerender cfg v l h = settle cfg h"
  using effect_settle [of cfg h] by (subst rerender_eq) auto

lemma rerender_visible: "isVisible h \<Longrightarrow> rerender cfg False l h = settle cfg h"
  by (rule rerender_changed) simp

lemma step_Elapse: "step cfg (Elapse n) h = h\<lparr>now := now h + n\<rparr>"
  by (simp add: step_def rerender_same)

lemma step_Unmount:
  "step cfg Unmount h =
     (if mounted h
      then h\<lparr>registered := NoCleanup, mounted := False, stopped := Some (now h)\<rparr> else h)"
  by (simp add: step_def cleanup_def)

lemma step_Layout:
  "step cfg (Layout y) h =
     (if mounted h \<and> layoutY h \<noteq> Some y then settle cfg (h\<lparr>layoutY := Some y\<rparr>) else h)"
proof (cases "mounted h \<and> layoutY h \<noteq> Some y")
  case True
  then have "Some y \<noteq> layoutY h" by auto
  then show ?thesis using True by (simp add: step_def onLayout_def rerender_changed)
next
  case False
  then show ?thesis by (auto simp: step_def onLayout_def rerender_same)
qed

lemma step_Scroll:
  "step cfg (Scroll s) h =
     (if mounted h \<and> registered h = Listener \<and> \<not> isVisible h \<and>
         (\<exists>y. layoutY h = Some y \<and> s + windowHeight cfg \<ge> y + windowHeight cfg * 0.1)
      then settle cfg (h\<lparr>isVisible := True, timings := now h # timings h\<rparr>) else h)"
proof (cases "mounted h \<and> registered h = Listener \<and> \<not> isVisible h \<and>
         (\<exists>y. layoutY h = Some y \<and> s + windowHeight cfg \<ge> y + windowHeight cfg * 0.1)")
  case True
  then show ?thesis
    by (auto simp: step_def checkAndAnimate_def animateIn_def Let_def rerender_visible)
next
  case False
  show ?thesis
  proof (cases "mounted h")
    case True
    with False have "handle cfg (Scroll s) h = h"
      by (auto simp: checkAndAnimate_def animateIn_def Let_def split: option.splits)
    then show ?thesis using False True
      by (auto simp add: step_def rerender_same simp del: handle.simps)
  next
    case False
    then show ?thesis by (simp add: step_def)
  qed
qed

lemma step_Intersect:
  "step cfg (Intersect es) h =
     (if mounted h \<and> registered h = Observer True \<and> True \<in> set es then
        (if isVisible h then h\<lparr>registered := Observer False\<rparr>
         else settle cfg (h\<lparr>isVisible := True,
                timings := replicate (length (filter id es)) (now h) @ timings h,
                registered := Observer False\<rparr>))
      else h)"
proof (cases "mounted h \<and> registered h = Observer True \<and> True \<in> set es")
  case True
  then show ?thesis
    by (cases "isVisible h")
       (simp_all add: step_def observerCallback_eq rerender_visible rerender_same)
next
  case False
  show ?thesis
  proof (cases "mounted h")
    case True
    with False have "handle cfg (Intersect es) h = h"
      by (auto simp: observerCallback_eq)
    then show ?thesis using False True
      by (auto simp add: step_def rerender_same simp del: handle.simps)
  next
    case False
    then show ?thesis by (simp add: step_def)
  qed
qed

lemma step_Fire:
  "step cfg Fire h =
     (case registered h of
        Timer due \<Rightarrow>
          if mounted h \<and> due \<le> now h then
            (if isVisible h then h\<lparr>registered := TimerSpent\<rparr>
             else settle cfg (h\<lparr>registered := TimerSpent, isVisible := True,
                                timings := now h # timings h\<rparr>))
          else h
      | _ \<Rightarrow> h)"
proof (cases "registered h")
  case (Timer due)
  then show ?thesis
    by (cases "isVisible h")
       (simp_all add: step_def animateIn_def rerender_visible rerender_same)
qed (simp_all add: step_def rerender_same)

lemmas step_simps = step_Elapse step_Unmount step_Layout step_Scroll step_Intersect step_Fire

subsection \<open>The invariant\<close>

lemma inv_mount: "inv cfg (mount cfg)"
  by (auto simp: inv_def registered_ok_def mount_def rerender_eq hook_defs Let_def)

lemma inv_step: "inv cfg h \<Longrightarrow> inv cfg (step cfg ev h)"
proof (cases ev)
  case (Layout y)
  assume "inv cfg h"
  then show ?thesis unfolding Layout
    by (auto simp: inv_def registered_ok_def step_Layout settle_def
             split: registration.splits if_splits)
next
  case (Scroll v)
  assume "inv cfg h"
  then show ?thesis unfolding Scroll
    by (auto simp: inv_def registered_ok_def step_Scroll settle_def
             split: registration.splits if_splits option.splits)
next
  case (Intersect es)
  assume "inv cfg h"
  then show ?thesis unfolding Intersect
    by (auto simp: inv_def registered_ok_def step_Intersect settle_def filter_empty_conv
             split: registration.splits if_splits option.splits)
next
  case Fire
  assume "inv cfg h"
  then show ?thesis unfolding Fire
    by (auto simp: inv_def registered_ok_def step_Fire settle_def
             split: registration.splits if_splits option.splits)
next
  case (Elapse n)
  assume "inv cfg h"
  then show ?thesis unfolding Elapse
    by (auto simp: inv_def registered_ok_def step_Elapse
             split: registration.splits if_splits option.splits)
next
  case Unmount
  assume "inv cfg h"
  then show ?thesis unfolding Unmount
    by (auto simp: inv_def registered_ok_def step_Unmount
             split: registration.splits if_splits option.splits)
qed

subsection \<open>Runs\<close>

lemma mount_state:
  "\<not> isVisible (mount cfg) \<and> layoutY (mount cfg) = None \<and> timings (mount cfg) = [] \<and>
   mounted (mount cfg) \<and> now (mount cfg) = 0"
  by (simp add: mount_def rerender_eq hook_defs Let_def)

lemma run_from_append:
  "run_from cfg h (evs @ evs') = run_from cfg (run_from cfg h evs) evs'"
  by (induction evs arbitrary: h) simp_all

lemma run_append: "run cfg (evs @ evs') = run_from cfg (run cfg evs) evs'"
  by (simp add: run_def run_from_append)

lemma inv_run_from: "inv cfg h \<Longrightarrow> inv cfg (run_from cfg h evs)"
  by (induction evs arbitrary: h) (simp_all add: inv_step)

lemma inv_run: "inv cfg (run cfg evs)"
  by (simp add: run_def inv_run_from inv_mount)

subsection \<open>The latch\<close>

lemma visible_step:
  "isVisible h \<Longrightarrow> isVisible (step cfg ev h) \<and> timings (step cfg ev h) = timings h"
  by (cases ev) (auto simp: step_simps settle_def split: registration.splits)

lemma visible_run_from:
  "isVisible h \<Longrightarrow>
     isVisible (run_from cfg h evs) \<and> timings (run_from cfg h evs) = timings h"
proof (induction evs arbitrary: h)
  case Nil
  then show ?case by simp
next
  case (Cons ev evs)
  from visible_step [OF Cons.prems, of cfg ev]
  have v: "isVisible (step cfg ev h)" and t: "timings (step cfg ev h) = timings h" by auto
  from Cons.IH [OF v] t show ?case by simp
qed

lemma trace_from_Cons: "\<exists>rest. trace_from cfg h evs = h # rest"
  by (cases evs) simp_all

lemma falls_trace: "falls (map isVisible (trace_from cfg h evs)) = 0"
proof (induction evs arbitrary: h)
  case Nil
  show ?case by simp
next
  case (Cons ev evs)
  obtain rest where r: "trace_from cfg (step cfg ev h) evs = step cfg ev h # rest"
    using trace_from_Cons by blast
  have "falls (map isVisible (trace_from cfg (step cfg ev h) evs)) = 0" by (rule Cons.IH)
  then show ?case using r visible_step [of h cfg ev] by auto
qed

lemma rises_visible:
  "isVisible h \<Longrightarrow> rises (map isVisible (trace_from cfg h evs)) = 0"
proof (induction evs arbitrary: h)
  case Nil
  show ?case by simp
next
  case (Cons ev evs)
  obtain rest where r: "trace_from cfg (step cfg ev h) evs = step cfg ev h # rest"
    using trace_from_Cons by blast
  have v: "isVisible (step cfg ev h)" using visible_step [OF Cons.prems] by simp
  from Cons.IH [OF v] show ?case using r Cons.prems by auto
qed

lemma rises_trace: "rises (map isVisible (trace_from cfg h evs)) \<le> 1"
proof (induction evs arbitrary: h)
  case Nil
  show ?case by simp
next
  case (Cons ev evs)
  obtain rest where r: "trace_from cfg (step cfg ev h) evs = step cfg ev h # rest"
    using trace_from_Cons by blast
  show ?case
  proof (cases "isVisible (step cfg ev h)")
    case True
    from rises_visible [OF True, of cfg evs] show ?thesis using r by auto
  next
    case False
    with Cons.IH [of "step cfg ev h"] show ?thesis using r by auto
  qed
qed

text \<open>
  C2. Along every sequence of layout, scroll, observer, timer, clock and unmount
  events, from any state, \<open>isVisible\<close> rises from false to true at most once and
  never falls back; and from a state where the view is visible, no later event calls
  \<open>start()\<close> on the timing again: the list of started timings stays as it is.
\<close>

theorem visible_latched:
  "rises (map isVisible (trace_from cfg h evs)) \<le> 1 \<and>
   falls (map isVisible (trace_from cfg h evs)) = 0 \<and>
   (isVisible h \<longrightarrow>
      isVisible (run_from cfg h evs) \<and> timings (run_from cfg h evs) = timings h)"
  using rises_trace [of cfg h evs] falls_trace [of cfg h evs] visible_run_from [of h cfg evs]
  by blast

theorem visible_latched_witness:
  "isVisible (run web_observer [Intersect [True]]) \<and>
   isVisible (run_from web_observer (run web_observer [Intersect [True]])
                [Elapse 900, Layout 40, Intersect [True], Scroll 7, Fire]) \<and>
   timings (run_from web_observer (run web_observer [Intersect [True]])
                [Elapse 900, Layout 40, Intersect [True], Scroll 7, Fire]) = [0]"
proof -
  have v: "isVisible (run web_observer [Intersect [True]])"
    by code_simp
  have t: "timings (run web_observer [Intersect [True]]) = [0]"
    by code_simp
  from visible_latched [of web_observer "run web_observer [Intersect [True]]"
         "[Elapse 900, Layout 40, Intersect [True], Scroll 7, Fire]"] v t
  show ?thesis by simp
qed

subsection \<open>The scroll-offset comparison\<close>

lemma listening:
  assumes "\<not> web cfg" "scrollY cfg" "inv cfg h" "mounted h" "\<not> isVisible h"
  shows "registered h = Listener \<and> timings h = []"
  using assms by (auto simp: inv_def registered_ok_def)

text \<open>
  C1. Off the web and with a scroll signal, take a mounted view that is not yet visible
  and whose position \<open>y\<close> has been measured, in a window of height \<open>H\<close>. A scroll
  update to offset \<open>s\<close> makes it visible, and starts the timing at that instant,
  if and only if \<open>s + H \<ge> y + 0.1 * H\<close>. With \<open>H = 800\<close> and \<open>y = 1000\<close> it stays
  hidden for every \<open>s\<close> with \<open>s + 800 < 1080\<close> and becomes visible for every
  \<open>s \<ge> 280\<close>.
\<close>

theorem scroll_offset_trigger:
  assumes "\<not> web cfg" and "scrollY cfg" and "h = run cfg evs"
    and "mounted h" and "\<not> isVisible h" and "layoutY h = Some y" and "H = windowHeight cfg"
  shows "(isVisible (step cfg (Scroll s) h) \<longleftrightarrow> s + H \<ge> y + 0.1 * H) \<and>
         timings (step cfg (Scroll s) h) = (if s + H \<ge> y + 0.1 * H then [now h] else []) \<and>
         (H = 800 \<and> y = 1000 \<longrightarrow>
            (s + 800 < 1080 \<longrightarrow> \<not> isVisible (step cfg (Scroll s) h)) \<and>
            (280 \<le> s \<longrightarrow> isVisible (step cfg (Scroll s) h)))"
proof -
  have "inv cfg h" using assms(3) by (simp add: inv_run)
  from listening [OF assms(1,2) this assms(4,5)]
  have r: "registered h = Listener" and t: "timings h = []" by auto
  have iff: "isVisible (step cfg (Scroll s) h) \<longleftrightarrow> s + H \<ge> y + 0.1 * H"
    using assms r by (simp add: step_Scroll settle_def mult.commute)
  have tm: "timings (step cfg (Scroll s) h) = (if s + H \<ge> y + 0.1 * H then [now h] else [])"
    using assms r t by (simp add: step_Scroll settle_def mult.commute)
  have "H = 800 \<and> y = 1000 \<longrightarrow>
            (s + 800 < 1080 \<longrightarrow> \<not> isVisible (step cfg (Scroll s) h)) \<and>
            (280 \<le> s \<longrightarrow> isVisible (step cfg (Scroll s) h))"
    unfolding iff by auto
  with iff tm show ?thesis by blast
qed

theorem scroll_offset_trigger_witness:
  "\<not> web native_scroll \<and> scrollY native_scroll \<and>
   mounted (run native_scroll [Layout 1000]) \<and>
   \<not> isVisible (run native_scroll [Layout 1000]) \<and>
   layoutY (run native_scroll [Layout 1000]) = Some 1000 \<and>
   windowHeight native_scroll = 800 \<and>
   \<not> isVisible (step native_scroll (Scroll 200) (run native_scroll [Layout 1000])) \<and>
   isVisible (step native_scroll (Scroll 280) (run native_scroll [Layout 1000])) \<and>
   timings (step native_scroll (Scroll 280) (run native_scroll [Layout 1000])) = [0]"
proof -
  have c: "\<not> web native_scroll" "scrollY native_scroll" "windowHeight native_scroll = 800"
    by (simp_all add: native_scroll_def)
  have m: "mounted (run native_scroll [Layout 1000])" by code_simp
  have v: "\<not> isVisible (run native_scroll [Layout 1000])" by code_simp
  have l: "layoutY (run native_scroll [Layout 1000]) = Some 1000" by code_simp
  have n: "now (run native_scroll [Layout 1000]) = 0" by code_simp
  note th = scroll_offset_trigger [OF c(1) c(2) refl m v l c(3) [symmetric]]
  from th [of 200] th [of 280] c m v l n show ?thesis by simp
qed

subsection \<open>Before the first measurement\<close>

lemma unmeasured_step:
  assumes "\<not> web cfg" "scrollY cfg" "inv cfg h" "\<not> isVisible h" "layoutY h = None"
    and "\<not> is_Layout ev"
  shows "\<not> isVisible (step cfg ev h) \<and> layoutY (step cfg ev h) = None"
proof (cases ev)
  case Fire
  have "registered h \<noteq> Timer due" for due
    using assms by (auto simp: inv_def registered_ok_def split: if_splits)
  then show ?thesis using assms unfolding Fire
    by (auto simp: step_Fire split: registration.splits)
next
  case (Intersect es)
  have "registered h \<noteq> Observer True"
    using assms by (auto simp: inv_def registered_ok_def split: if_splits)
  then show ?thesis using assms unfolding Intersect by (simp add: step_Intersect)
qed (use assms in \<open>simp_all add: step_simps\<close>)

lemma unmeasured_run_from:
  assumes "\<not> web cfg" "scrollY cfg"
  shows "inv cfg h \<Longrightarrow> \<not> isVisible h \<Longrightarrow> layoutY h = None \<Longrightarrow>
         \<forall>ev \<in> set evs. \<not> is_Layout ev \<Longrightarrow>
         \<not> isVisible (run_from cfg h evs) \<and> layoutY (run_from cfg h evs) = None"
proof (induction evs arbitrary: h)
  case Nil
  then show ?case by simp
next
  case (Cons ev evs)
  have e: "\<not> is_Layout ev" using Cons.prems(4) by simp
  from unmeasured_step [OF assms Cons.prems(1,2,3) e]
  have a: "\<not> isVisible (step cfg ev h)" "layoutY (step cfg ev h) = None" by auto
  have i: "inv cfg (step cfg ev h)" using Cons.prems(1) by (rule inv_step)
  from Cons.IH [OF i a] Cons.prems(4) show ?case by simp
qed

text \<open>
  C5. Off the web and with a scroll signal, as long as no layout event has reported a
  position, the view is not visible and no timing has been started, whatever scroll
  offsets were delivered; a further scroll update leaves the state exactly as it is,
  and \<open>checkAndAnimate\<close> with \<open>layoutY = null\<close> returns the state unchanged.
\<close>

theorem unmeasured_never_triggers:
  assumes "\<not> web cfg" and "scrollY cfg" and "\<forall>ev \<in> set evs. \<not> is_Layout ev"
  shows "\<not> isVisible (run cfg evs) \<and> timings (run cfg evs) = [] \<and>
         layoutY (run cfg evs) = None \<and>
         step cfg (Scroll s) (run cfg evs) = run cfg evs \<and>
         checkAndAnimate c None H s' h = h"
proof -
  have i: "inv cfg (mount cfg)" by (rule inv_mount)
  from unmeasured_run_from [OF assms(1,2) i _ _ assms(3)] mount_state [of cfg]
  have a: "\<not> isVisible (run cfg evs)" "layoutY (run cfg evs) = None"
    by (simp_all add: run_def)
  have t: "timings (run cfg evs) = []"
    using inv_run [of cfg evs] a(1) by (simp add: inv_def)
  have s: "step cfg (Scroll s) (run cfg evs) = run cfg evs"
    using a(2) by (simp add: step_Scroll)
  have "checkAndAnimate c None H s' h = h" by (simp add: checkAndAnimate_def)
  with a t s show ?thesis by simp
qed

theorem unmeasured_never_triggers_witness:
  "\<not> web native_scroll \<and> scrollY native_scroll \<and>
   \<not> isVisible (run native_scroll [Scroll 0, Scroll 5000, Elapse 100, Scroll 100000]) \<and>
   timings (run native_scroll [Scroll 0, Scroll 5000, Elapse 100, Scroll 100000]) = []"
proof -
  have c: "\<not> web native_scroll" "scrollY native_scroll"
    by (simp_all add: native_scroll_def)
  have e: "\<forall>ev \<in> set [Scroll 0, Scroll 5000, Elapse 100, Scroll 100000]. \<not> is_Layout ev"
    by simp
  from unmeasured_never_triggers [OF c e] c show ?thesis by simp
qed

subsection \<open>The fallback without a scroll signal\<close>

lemma fallback_pending:
  assumes "\<not> web cfg" "\<not> scrollY cfg" "inv cfg h" "mounted h" "\<not> isVisible h"
  shows "\<exists>due. registered h = Timer due \<and> due \<le> now h + 80"
  using assms by (auto simp: inv_def registered_ok_def split: registration.splits)

lemma fallback_fire:
  assumes "\<not> web cfg" "\<not> scrollY cfg" "mounted h" "\<not> isVisible h" "timings h = []"
    and "registered h = Timer due" "due \<le> now h + k"
  shows "isVisible (run_from cfg h [Elapse k, Fire]) \<and>
         timings (run_from cfg h [Elapse k, Fire]) = [now h + k]"
  using assms by (simp add: step_Elapse step_Fire settle_def)

text \<open>
  C4. Off the web and without a scroll signal: over every sequence of events at most
  one timing is ever started, and never before instant 80; from the mounted state,
  letting \<open>n \<ge> 80\<close> milliseconds pass and the timeout fire makes the view visible and
  starts the timing at instant \<open>n\<close>, with no scroll or layout event; and in every
  reachable state where the view is mounted and not yet visible a timeout is pending,
  due at most 80 ms ahead, whose firing makes the view visible and starts the one
  timing.
\<close>

theorem fallback_trigger:
  assumes "\<not> web cfg" and "\<not> scrollY cfg"
  shows "length (timings (run cfg evs)) \<le> 1 \<and>
         (\<forall>t \<in> set (timings (run cfg evs)). 80 \<le> t) \<and>
         (80 \<le> n \<longrightarrow>
            isVisible (run cfg [Elapse n, Fire]) \<and> timings (run cfg [Elapse n, Fire]) = [n]) \<and>
         (mounted (run cfg evs) \<and> \<not> isVisible (run cfg evs) \<longrightarrow>
            (\<exists>due. registered (run cfg evs) = Timer due \<and> due \<le> now (run cfg evs) + 80 \<and>
               (\<forall>k. due \<le> now (run cfg evs) + k \<longrightarrow>
                  isVisible (run cfg (evs @ [Elapse k, Fire])) \<and>
                  timings (run cfg (evs @ [Elapse k, Fire])) = [now (run cfg evs) + k])))"
proof -
  have i: "inv cfg (run cfg evs)" by (rule inv_run)
  have a: "length (timings (run cfg evs)) \<le> 1"
    using i assms by (simp add: inv_def)
  have b: "\<forall>t \<in> set (timings (run cfg evs)). 80 \<le> t"
    using i assms by (simp add: inv_def)
  have m: "registered (mount cfg) = Timer 80"
    using assms by (simp add: mount_def rerender_eq hook_defs Let_def)
  have c: "80 \<le> n \<longrightarrow>
            isVisible (run cfg [Elapse n, Fire]) \<and> timings (run cfg [Elapse n, Fire]) = [n]"
  proof
    assume n: "80 \<le> n"
    have "80 \<le> now (mount cfg) + n" using n by simp
    from fallback_fire [OF assms _ _ _ m this] mount_state [of cfg]
    show "isVisible (run cfg [Elapse n, Fire]) \<and> timings (run cfg [Elapse n, Fire]) = [n]"
      by (simp add: run_def)
  qed
  have d: "mounted (run cfg evs) \<and> \<not> isVisible (run cfg evs) \<longrightarrow>
            (\<exists>due. registered (run cfg evs) = Timer due \<and> due \<le> now (run cfg evs) + 80 \<and>
               (\<forall>k. due \<le> now (run cfg evs) + k \<longrightarrow>
                  isVisible (run cfg (evs @ [Elapse k, Fire])) \<and>
                  timings (run cfg (evs @ [Elapse k, Fire])) = [now (run cfg evs) + k]))"
  proof
    assume mv: "mounted (run cfg evs) \<and> \<not> isVisible (run cfg evs)"
    then have t: "timings (run cfg evs) = []" using i by (simp add: inv_def)
    from fallback_pending [OF assms i] mv
    obtain due where due: "registered (run cfg evs) = Timer due" "due \<le> now (run cfg evs) + 80"
      by blast
    have "\<forall>k. due \<le> now (run cfg evs) + k \<longrightarrow>
                  isVisible (run cfg (evs @ [Elapse k, Fire])) \<and>
                  timings (run cfg (evs @ [Elapse k, Fire])) = [now (run cfg evs) + k]"
    proof (intro allI impI)
      fix k
      assume "due \<le> now (run cfg evs) + k"
      from fallback_fire [OF assms _ _ t due(1) this] mv
      show "isVisible (run cfg (evs @ [Elapse k, Fire])) \<and>
            timings (run cfg (evs @ [Elapse k, Fire])) = [now (run cfg evs) + k]"
        by (simp only: run_append) simp
    qed
    with due show "\<exists>due. registered (run cfg evs) = Timer due \<and> due \<le> now (run cfg evs) + 80 \<and>
               (\<forall>k. due \<le> now (run cfg evs) + k \<longrightarrow>
                  isVisible (run cfg (evs @ [Elapse k, Fire])) \<and>
                  timings (run cfg (evs @ [Elapse k, Fire])) = [now (run cfg evs) + k])"
      by blast
  qed
  from a b c d show ?thesis by blast
qed

theorem fallback_trigger_witness:
  "\<not> web native_fallback \<and> \<not> scrollY native_fallback \<and>
   isVisible (run native_fallback [Elapse 80, Fire]) \<and>
   timings (run native_fallback [Elapse 80, Fire]) = [80] \<and>
   length (timings (run native_fallback [Elapse 80, Fire, Elapse 80, Fire, Layout 3])) \<le> 1"
proof -
  have c: "\<not> web native_fallback" "\<not> scrollY native_fallback"
    by (simp_all add: native_fallback_def)
  from fallback_trigger [OF c, of "[Elapse 80, Fire, Elapse 80, Fire, Layout 3]" 80] c
  show ?thesis by simp
qed

subsection \<open>Unmounting\<close>

lemma unmounted_step:
  "\<not> mounted h \<Longrightarrow> step cfg ev h = h\<lparr>now := now h + elapsed [ev]\<rparr>"
  by (cases ev) (simp_all add: step_def)

lemma unmounted_run_from:
  "\<not> mounted h \<Longrightarrow> run_from cfg h evs = h\<lparr>now := now h + elapsed evs\<rparr>"
proof (induction evs arbitrary: h)
  case Nil
  show ?case by simp
next
  case (Cons ev evs)
  have s: "step cfg ev h = h\<lparr>now := now h + elapsed [ev]\<rparr>"
    using Cons.prems by (rule unmounted_step)
  have "\<not> mounted (h\<lparr>now := now h + elapsed [ev]\<rparr>)" using Cons.prems by simp
  from Cons.IH [OF this] s show ?case by (cases ev) simp_all
qed

lemma after_Unmount:
  "\<not> mounted (step cfg Unmount h) \<and> isVisible (step cfg Unmount h) = isVisible h \<and>
   layoutY (step cfg Unmount h) = layoutY h \<and> timings (step cfg Unmount h) = timings h \<and>
   now (step cfg Unmount h) = now h"
  by (simp add: step_Unmount)

lemma stopped_step:
  "(mounted h \<longleftrightarrow> stopped h = None) \<Longrightarrow>
   (mounted (step cfg ev h) \<longleftrightarrow> stopped (step cfg ev h) = None)"
  by (cases ev) (auto simp: step_simps settle_def split: registration.splits option.splits)

lemma stopped_run_from:
  "(mounted h \<longleftrightarrow> stopped h = None) \<Longrightarrow>
   (mounted (run_from cfg h evs) \<longleftrightarrow> stopped (run_from cfg h evs) = None)"
  by (induction evs arbitrary: h) (simp_all add: stopped_step)

lemma stopped_run: "mounted (run cfg evs) \<longleftrightarrow> stopped (run cfg evs) = None"
proof -
  have "stopped (mount cfg) = None"
    by (simp add: mount_def rerender_eq hook_defs Let_def)
  then show ?thesis
    unfolding run_def using mount_state [of cfg] by (intro stopped_run_from) simp
qed

lemma animValue_Unmount:
  assumes "mounted h \<longleftrightarrow> stopped h = None"
  shows "animValue cfg (step cfg Unmount h) = animValue cfg h"
  using assms by (cases "mounted h") (simp_all add: step_Unmount animValue_def)

text \<open>
  C3. Once the component is unmounted, at any point of a run, nothing is registered
  with the host any more (the observer is disconnected, the pending timeout
  cleared, the scroll listener removed), so no callback of the hook can fire; a
  second unmount leaves the state as it is; and every later sequence of events
  changes nothing but the clock: visibility, measured position and the list of
  started timings stay fixed, and the animated value and the style stay what they
  were at the instant of unmounting, also when the delay or the interpolation of a
  timing was running at that instant.
\<close>

theorem unmount_final:
  "registered (run cfg (evs @ [Unmount])) = NoCleanup \<and>
   step cfg Unmount (run cfg (evs @ [Unmount])) = run cfg (evs @ [Unmount]) \<and>
   run cfg (evs @ Unmount # evs') =
     (run cfg (evs @ [Unmount]))\<lparr>now := now (run cfg (evs @ [Unmount])) + elapsed evs'\<rparr> \<and>
   isVisible (run cfg (evs @ Unmount # evs')) = isVisible (run cfg evs) \<and>
   layoutY (run cfg (evs @ Unmount # evs')) = layoutY (run cfg evs) \<and>
   timings (run cfg (evs @ Unmount # evs')) = timings (run cfg evs) \<and>
   animValue cfg (run cfg (evs @ Unmount # evs')) = animValue cfg (run cfg evs) \<and>
   animationStyle (animValue cfg (run cfg (evs @ Unmount # evs'))) =
     animationStyle (animValue cfg (run cfg evs))"
proof -
  define h where "h = run cfg evs"
  define d where "d = step cfg Unmount h"
  have d1: "run cfg (evs @ [Unmount]) = d" by (simp add: run_append h_def d_def)
  have d2: "run cfg (evs @ Unmount # evs') = run_from cfg d evs'"
    by (simp add: run_append h_def d_def)
  have u: "\<not> mounted d" "isVisible d = isVisible h" "layoutY d = layoutY h"
    "timings d = timings h" "now d = now h"
    using after_Unmount [of cfg h] by (simp_all add: d_def)
  have r: "registered d = NoCleanup"
    using inv_run [of cfg "evs @ [Unmount]"] u(1) by (simp add: d1 inv_def registered_ok_def)
  have s: "step cfg Unmount d = d" using u(1) by (simp add: step_Unmount)
  have f: "run_from cfg d evs' = d\<lparr>now := now d + elapsed evs'\<rparr>"
    using u(1) by (rule unmounted_run_from)
  have sh: "mounted h \<longleftrightarrow> stopped h = None" unfolding h_def by (rule stopped_run)
  have sd: "stopped d \<noteq> None"
    using stopped_run [of cfg "evs @ [Unmount]"] u(1) by (simp add: d1)
  have a: "animValue cfg d = animValue cfg h"
    unfolding d_def using sh by (rule animValue_Unmount)
  have b: "animValue cfg (d\<lparr>now := now d + elapsed evs'\<rparr>) = animValue cfg d"
    using sd by (auto simp: animValue_def)
  show ?thesis unfolding d1 d2 f h_def [symmetric]
    using r s u a b by simp
qed

theorem unmount_final_witness:
  "animationStyle (animValue native_fallback
       (run native_fallback [Elapse 80, Fire, Elapse 100, Unmount, Elapse 100, Fire, Unmount])) =
     \<lparr>opacity = 169 / 512, translateY = 5145 / 128\<rparr> \<and>
   animationStyle (animValue native_delayed
       (run native_delayed [Elapse 80, Fire, Elapse 100, Unmount, Elapse 2000])) =
     \<lparr>opacity = 0, translateY = 60\<rparr> \<and>
   animationStyle (animValue native_delayed
       (run native_delayed [Elapse 80, Fire, Elapse 100, Elapse 2000])) =
     \<lparr>opacity = 1, translateY = 0\<rparr>"
proof -
  have 1: "animationStyle (animValue native_fallback
             (run native_fallback [Elapse 80, Fire, Elapse 100])) =
           \<lparr>opacity = 169 / 512, translateY = 5145 / 128\<rparr>"
    by (simp add: native_fallback_def run_def mount_def rerender_eq hook_defs step_simps settle_def
          animValue_def animationStyle_def interpolate_def Animated_timing_def
          Easing_out_def Easing_cubic_def Let_def)
  have 2: "animationStyle (animValue native_delayed
             (run native_delayed [Elapse 80, Fire, Elapse 100])) =
           \<lparr>opacity = 0, translateY = 60\<rparr>"
    by (simp add: native_delayed_def run_def mount_def rerender_eq hook_defs step_simps settle_def
          animValue_def animationStyle_def interpolate_def Animated_timing_def
          Easing_out_def Easing_cubic_def Let_def)
  have 3: "animationStyle (animValue native_delayed
             (run native_delayed [Elapse 80, Fire, Elapse 100, Elapse 2000])) =
           \<lparr>opacity = 1, translateY = 0\<rparr>"
    by (simp add: native_delayed_def run_def mount_def rerender_eq hook_defs step_simps settle_def
          animValue_def animationStyle_def interpolate_def Animated_timing_def
          Easing_out_def Easing_cubic_def Let_def)
  note last = conjunct2 [THEN conjunct2, THEN conjunct2, THEN conjunct2, THEN conjunct2,
      THEN conjunct2, THEN conjunct2]
  have a: "animationStyle (animValue native_fallback
             (run native_fallback
                ([Elapse 80, Fire, Elapse 100] @ Unmount # [Elapse 100, Fire, Unmount]))) =
           animationStyle (animValue native_fallback
             (run native_fallback [Elapse 80, Fire, Elapse 100]))"
    by (rule unmount_final [THEN last])
  have b: "animationStyle (animValue native_delayed
             (run native_delayed ([Elapse 80, Fire, Elapse 100] @ Unmount # [Elapse 2000]))) =
           animationStyle (animValue native_delayed
             (run native_delayed [Elapse 80, Fire, Elapse 100]))"
    by (rule unmount_final [THEN last])
  from a [unfolded 1] b [unfolded 2] 3 show ?thesis
    by (simp only: append.simps)
qed

subsection \<open>The style\<close>

lemma animationStyle_eq:
  "animationStyle p = \<lparr>opacity = p, translateY = 60 * (1 - p)\<rparr>"
  by (simp add: animationStyle_def interpolate_def algebra_simps)

text \<open>
  C7. The style read maps a progress value \<open>p\<close> to opacity \<open>p\<close> and vertical offset
  \<open>60 * (1 - p)\<close>; at 0 this is opacity 0 and offset 60, at 1 opacity 1 and offset 0;
  and when \<open>p \<le> q\<close> the opacity at \<open>p\<close> is at most that at \<open>q\<close> and the offset at \<open>p\<close>
  at least that at \<open>q\<close> (strictly so when \<open>p < q\<close>). This holds for every \<open>p\<close>, in
  particular on the interval from 0 to 1.
\<close>

theorem style_of_progress:
  "animationStyle p = \<lparr>opacity = p, translateY = 60 * (1 - p)\<rparr> \<and>
   animationStyle 0 = \<lparr>opacity = 0, translateY = 60\<rparr> \<and>
   animationStyle 1 = \<lparr>opacity = 1, translateY = 0\<rparr> \<and>
   (p \<le> q \<longrightarrow> opacity (animationStyle p) \<le> opacity (animationStyle q) \<and>
               translateY (animationStyle q) \<le> translateY (animationStyle p)) \<and>
   (p < q \<longrightarrow> opacity (animationStyle p) < opacity (animationStyle q) \<and>
               translateY (animationStyle q) < translateY (animationStyle p))"
  by (simp add: animationStyle_eq)

theorem style_of_progress_witness:
  "(1/4 :: real) \<le> 3/4 \<and> (1/4 :: real) < 3/4 \<and>
   animationStyle (1/4) = \<lparr>opacity = 1/4, translateY = 45\<rparr> \<and>
   opacity (animationStyle (1/4)) < opacity (animationStyle (3/4)) \<and>
   translateY (animationStyle (3/4)) < translateY (animationStyle (1/4))"
proof -
  have h: "(1/4 :: real) \<le> 3/4" "(1/4 :: real) < 3/4" by simp_all
  have e: "60 * (1 - 1/4) = (45 :: real)" by simp
  from style_of_progress [of "1/4" "3/4"] h show ?thesis unfolding e by blast
qed

subsection \<open>Staggering\<close>

lemma group_step_length: "length hs = length cfgs \<Longrightarrow> length (group_step cfgs d hs) = length cfgs"
  by (cases d) simp_all

lemma group_run_from_nth:
  "length hs = length cfgs \<Longrightarrow> j < length cfgs \<Longrightarrow>
   group_run_from cfgs hs ds ! j = run_from (cfgs ! j) (hs ! j) (concat (map (reaching j) ds))"
proof (induction ds arbitrary: hs)
  case Nil
  show ?case by simp
next
  case (Cons d ds)
  have l: "length (group_step cfgs d hs) = length cfgs"
    using Cons.prems(1) by (rule group_step_length)
  have s: "run_from (cfgs ! j) (hs ! j) (reaching j d) = group_step cfgs d hs ! j"
  proof (cases d)
    case (ToChild i ev)
    then show ?thesis using Cons.prems by (auto simp: nth_list_update)
  next
    case (ToAll ev)
    then show ?thesis using Cons.prems by simp
  qed
  from Cons.IH [OF l Cons.prems(2)] s show ?case
    by (simp add: run_from_append)
qed

lemma stagger_delays:
  "map (delay \<circ> fst) (StaggeredScrollAnimation hst itemDelay_prop sc children) =
   map (\<lambda>i. real i * (case itemDelay_prop of None \<Rightarrow> 100 | Some d \<Rightarrow> d)) [0..<length children]"
proof -
  define D where "D = (case itemDelay_prop of None \<Rightarrow> 100 | Some d \<Rightarrow> (d :: real))"
  have "map (delay \<circ> fst) (StaggeredScrollAnimation hst itemDelay_prop sc children) =
        map (\<lambda>p. real (fst p) * D) (enumerate 0 children)"
    by (simp add: StaggeredScrollAnimation_def ScrollAnimatedView_def Let_def
          case_prod_unfold comp_def D_def)
  also have "\<dots> = map (\<lambda>i. real i * D) [0..<length children]"
  proof -
    have m: "map (\<lambda>i. real i * D) (map fst (enumerate 0 children)) =
             map (\<lambda>p. real (fst p) * D) (enumerate 0 children)"
      by (simp only: map_map comp_def)
    have e: "map fst (enumerate 0 children) = [0..<length children]"
      by simp
    show ?thesis using m unfolding e by (rule sym)
  qed
  finally show ?thesis by (simp add: D_def)
qed

text \<open>
  C6. The staggering helper renders its children in order, the child at index \<open>i\<close>
  with the delay \<open>i * itemDelay\<close>, \<open>itemDelay\<close> being 100 when it is not given; three
  children with \<open>itemDelay = 100\<close> get the delays 0, 100 and 200. Each child has its
  own hook instance: an event delivered to one child changes no other child's
  state, and the state of child \<open>j\<close> after any sequence of deliveries is the state its
  own hook reaches on the events that were delivered to it, whatever the others did.
\<close>

theorem stagger_independent:
  "map (delay \<circ> fst) (StaggeredScrollAnimation hst itemDelay_prop sc children) =
     map (\<lambda>i. real i * (case itemDelay_prop of None \<Rightarrow> 100 | Some d \<Rightarrow> d))
       [0..<length children] \<and>
   map snd (StaggeredScrollAnimation hst itemDelay_prop sc children) = children \<and>
   map (delay \<circ> fst) (StaggeredScrollAnimation hst (Some 100) sc [a, b, c]) = [0, 100, 200] \<and>
   map (delay \<circ> fst) (StaggeredScrollAnimation hst None sc [a, b, c]) = [0, 100, 200] \<and>
   (j < length hs \<and> j \<noteq> i \<longrightarrow> group_step cfgs (ToChild i ev) hs ! j = hs ! j) \<and>
   (j < length cfgs \<longrightarrow>
      group_run cfgs ds ! j = run (cfgs ! j) (concat (map (reaching j) ds)))"
proof -
  have 1: "map snd (StaggeredScrollAnimation hst itemDelay_prop sc children) = children"
  proof -
    have "map snd (StaggeredScrollAnimation hst itemDelay_prop sc children) =
          map snd (enumerate 0 children)"
      by (simp add: StaggeredScrollAnimation_def Let_def case_prod_unfold comp_def)
    also have "\<dots> = children" by (simp add: enumerate_eq_zip)
    finally show ?thesis .
  qed
  have 2: "map (delay \<circ> fst) (StaggeredScrollAnimation hst (Some 100) sc [a, b, c]) = [0, 100, 200]"
    by (simp add: StaggeredScrollAnimation_def ScrollAnimatedView_def)
  have 3: "map (delay \<circ> fst) (StaggeredScrollAnimation hst None sc [a, b, c]) = [0, 100, 200]"
    by (simp add: StaggeredScrollAnimation_def ScrollAnimatedView_def)
  have 4: "j < length hs \<and> j \<noteq> i \<longrightarrow> group_step cfgs (ToChild i ev) hs ! j = hs ! j"
    by simp
  have 5: "j < length cfgs \<longrightarrow>
      group_run cfgs ds ! j = run (cfgs ! j) (concat (map (reaching j) ds))"
    using group_run_from_nth [of "map mount cfgs" cfgs j ds]
    by (simp add: group_run_def run_def)
  from stagger_delays [of hst itemDelay_prop sc children] 1 2 3 4 5 show ?thesis by blast
qed

theorem stagger_independent_witness:
  "(1 :: nat) < length (map mount [native_scroll, native_scroll]) \<and> (1 :: nat) \<noteq> 0 \<and>
   (1 :: nat) < length [native_scroll, native_scroll] \<and>
   group_step [native_scroll, native_scroll] (ToChild 0 (Layout 0))
       (map mount [native_scroll, native_scroll]) ! 1 =
     map mount [native_scroll, native_scroll] ! 1 \<and>
   group_run [native_scroll, native_scroll] [ToChild 0 (Layout 0), ToAll (Scroll 300)] ! 1 =
     run native_scroll
       (concat (map (reaching 1) [ToChild 0 (Layout 0), ToAll (Scroll 300)]))"
proof -
  have l: "(1 :: nat) < length (map mount [native_scroll, native_scroll])" "(1 :: nat) \<noteq> 0"
    "(1 :: nat) < length [native_scroll, native_scroll]"
    by simp_all
  have n: "[native_scroll, native_scroll] ! 1 = native_scroll" by simp
  note th = stagger_independent [where j = 1 and i = 0 and ev = "Layout 0"
      and hs = "map mount [native_scroll, native_scroll]"
      and cfgs = "[native_scroll, native_scroll]"
      and ds = "[ToChild 0 (Layout 0), ToAll (Scroll 300)]"
      and hst = "\<lparr>host_web = False, host_windowHeight = 800\<rparr>"
      and itemDelay_prop = "Some 100" and sc = True
      and children = "[1, 2, 3 :: nat]" and a = 1 and b = 2 and c = 3]
  note th' = th [THEN conjunct2, THEN conjunct2, THEN conjunct2, THEN conjunct2]
  have 1: "group_step [native_scroll, native_scroll] (ToChild 0 (Layout 0))
       (map mount [native_scroll, native_scroll]) ! 1 =
     map mount [native_scroll, native_scroll] ! 1"
    by (rule mp [OF th' [THEN conjunct1]]) simp
  have 2: "group_run [native_scroll, native_scroll] [ToChild 0 (Layout 0), ToAll (Scroll 300)] ! 1 =
     run ([native_scroll, native_scroll] ! 1)
       (concat (map (reaching 1) [ToChild 0 (Layout 0), ToAll (Scroll 300)]))"
    by (rule mp [OF th' [THEN conjunct2]]) simp
  from 1 2 l show ?thesis unfolding n by (intro conjI)
qed

subsection \<open>Positions below or beyond the window\<close>

lemma first_layout:
  assumes "\<not> web cfg" "scrollY cfg"
  shows "run cfg [Layout y] =
     (if windowHeight cfg \<ge> y + windowHeight cfg * 0.1
      then (mount cfg)\<lparr>layoutY := Some y, isVisible := True, timings := [0],
                        registered := NoCleanup\<rparr>
      else (mount cfg)\<lparr>layoutY := Some y, registered := Listener\<rparr>)"
  using assms mount_state [of cfg] by (simp add: run_def step_Layout settle_def)

lemma below_step:
  assumes "\<not> web cfg" "scrollY cfg" "inv cfg h" "\<not> isVisible h" "layoutY h = Some y"
    and "\<not> is_Layout ev" "\<not> reaches (windowHeight cfg) y ev"
  shows "\<not> isVisible (step cfg ev h) \<and> layoutY (step cfg ev h) = Some y"
proof (cases ev)
  case Fire
  have "registered h \<noteq> Timer due" for due
    using assms by (auto simp: inv_def registered_ok_def split: if_splits)
  then show ?thesis using assms unfolding Fire
    by (auto simp: step_Fire split: registration.splits)
next
  case (Intersect es)
  have "registered h \<noteq> Observer True"
    using assms by (auto simp: inv_def registered_ok_def split: if_splits)
  then show ?thesis using assms unfolding Intersect by (simp add: step_Intersect)
qed (use assms in \<open>simp_all add: step_simps\<close>)

lemma below_run_from:
  assumes "\<not> web cfg" "scrollY cfg"
  shows "inv cfg h \<Longrightarrow> \<not> isVisible h \<Longrightarrow> layoutY h = Some y \<Longrightarrow>
         \<forall>ev \<in> set evs. \<not> is_Layout ev \<and> \<not> reaches (windowHeight cfg) y ev \<Longrightarrow>
         \<not> isVisible (run_from cfg h evs)"
proof (induction evs arbitrary: h)
  case Nil
  then show ?case by simp
next
  case (Cons ev evs)
  have e: "\<not> is_Layout ev" "\<not> reaches (windowHeight cfg) y ev" using Cons.prems(4) by simp_all
  from below_step [OF assms Cons.prems(1,2,3) e]
  have a: "\<not> isVisible (step cfg ev h)" "layoutY (step cfg ev h) = Some y" by auto
  have i: "inv cfg (step cfg ev h)" using Cons.prems(1) by (rule inv_step)
  from Cons.IH [OF i a] Cons.prems(4) show ?case by simp
qed

text \<open>
  C8, as amended. Off the web and with a scroll signal, in a window of height \<open>H\<close>: a
  measured position \<open>y\<close> with \<open>y + 0.1 * H \<le> H\<close>, which includes every negative position
  when \<open>H \<ge> 0\<close>, satisfies the comparison at offset 0, so the view becomes visible and
  its timing starts as soon as the position is reported. A position with
  \<open>H < y + 0.1 * H\<close> keeps the view hidden for as long as every scroll offset \<open>s\<close>
  delivered has \<open>s + H < y + 0.1 * H\<close>. Every case is a state of the model: no event
  raises an error.
\<close>

theorem position_comparison:
  assumes "\<not> web cfg" and "scrollY cfg" and "H = windowHeight cfg"
  shows "(y + 0.1 * H \<le> H \<longrightarrow>
            isVisible (run cfg [Layout y]) \<and> timings (run cfg [Layout y]) = [0]) \<and>
         (y < 0 \<and> 0 \<le> H \<longrightarrow> isVisible (run cfg [Layout y])) \<and>
         (H < y + 0.1 * H \<and> (\<forall>ev \<in> set evs. \<not> is_Layout ev \<and> \<not> reaches H y ev) \<longrightarrow>
            \<not> isVisible (run cfg (Layout y # evs)) \<and> timings (run cfg (Layout y # evs)) = [])"
proof -
  note f = first_layout [OF assms(1,2), of y]
  have 1: "y + 0.1 * H \<le> H \<longrightarrow>
            isVisible (run cfg [Layout y]) \<and> timings (run cfg [Layout y]) = [0]"
    unfolding f using assms(3) by (simp add: mult.commute)
  have 2: "y < 0 \<and> 0 \<le> H \<longrightarrow> isVisible (run cfg [Layout y])"
  proof
    assume "y < 0 \<and> 0 \<le> H"
    then have "y + 0.1 * H \<le> H" by simp
    with 1 show "isVisible (run cfg [Layout y])" by simp
  qed
  have 3: "H < y + 0.1 * H \<and> (\<forall>ev \<in> set evs. \<not> is_Layout ev \<and> \<not> reaches H y ev) \<longrightarrow>
            \<not> isVisible (run cfg (Layout y # evs)) \<and> timings (run cfg (Layout y # evs)) = []"
  proof
    assume a: "H < y + 0.1 * H \<and> (\<forall>ev \<in> set evs. \<not> is_Layout ev \<and> \<not> reaches H y ev)"
    define h where "h = run cfg [Layout y]"
    have i: "inv cfg h" unfolding h_def by (rule inv_run)
    have v: "\<not> isVisible h" "layoutY h = Some y"
      unfolding h_def f using a assms(3) mount_state [of cfg] by (simp_all add: mult.commute)
    have r: "run cfg (Layout y # evs) = run_from cfg h evs"
      using run_append [of cfg "[Layout y]" evs] by (simp add: h_def)
    have e: "\<forall>ev \<in> set evs. \<not> is_Layout ev \<and> \<not> reaches (windowHeight cfg) y ev"
      using a assms(3) by simp
    have nv: "\<not> isVisible (run cfg (Layout y # evs))"
      unfolding r by (rule below_run_from [OF assms(1,2) i v e])
    moreover have "timings (run cfg (Layout y # evs)) = []"
      using inv_run [of cfg "Layout y # evs"] nv by (simp add: inv_def)
    ultimately show "\<not> isVisible (run cfg (Layout y # evs)) \<and>
        timings (run cfg (Layout y # evs)) = []" by simp
  qed
  from 1 2 3 show ?thesis by blast
qed

theorem position_comparison_witness:
  "\<not> web native_scroll \<and> scrollY native_scroll \<and> 800 = windowHeight native_scroll \<and>
   (-100 :: real) < 0 \<and> (0 :: real) \<le> 800 \<and>
   isVisible (run native_scroll [Layout (-100)]) \<and>
   (800 :: real) < 100000 + 0.1 * 800 \<and>
   \<not> isVisible (run native_scroll [Layout 100000, Scroll 0, Elapse 50, Scroll 5000])"
proof -
  have c: "\<not> web native_scroll" "scrollY native_scroll" "800 = windowHeight native_scroll"
    by (simp_all add: native_scroll_def)
  have a: "(-100 :: real) < 0 \<and> (0 :: real) \<le> 800" by simp
  have b: "(800 :: real) < 100000 + 0.1 * 800 \<and>
     (\<forall>ev \<in> set [Scroll 0, Elapse 50, Scroll 5000].
         \<not> is_Layout ev \<and> \<not> reaches 800 100000 ev)"
    by simp
  note th1 = position_comparison [OF c, of "-100" "[]"]
  note th2 = position_comparison [OF c, of 100000 "[Scroll 0, Elapse 50, Scroll 5000]"]
  have 1: "isVisible (run native_scroll [Layout (-100)])"
    by (rule mp [OF th1 [THEN conjunct2, THEN conjunct1] a])
  have 2: "\<not> isVisible (run native_scroll [Layout 100000, Scroll 0, Elapse 50, Scroll 5000])"
    using mp [OF th2 [THEN conjunct2, THEN conjunct2] b] by (rule conjunct1)
  from c a 1 2 show ?thesis by (intro conjI) simp_all
qed

text \<open>
  C8 as stated fails: a view measured at \<open>y = -100\<close> in a window of height 800 becomes
  visible, and its timing starts, the moment the position is reported.
\<close>

theorem negative_position_counterexample:
  "isVisible (run native_scroll [Layout (-100)]) \<and>
   timings (run native_scroll [Layout (-100)]) = [0]"
  by code_simp

subsection \<open>The two variants of the page\<close>

declare rerender_p0.simps [simp del]

lemma animateIn_p0_eq: "animateIn_p0 = animateIn"
  by (intro ext) (simp add: animateIn_p0_def animateIn_def)

lemma onLayout_p0_eq: "onLayout_p0 = onLayout"
  by (intro ext) (simp add: onLayout_p0_def onLayout_def)

lemma checkAndAnimate_p0_eq: "checkAndAnimate_p0 = checkAndAnimate"
  unfolding checkAndAnimate_p0_def checkAndAnimate_def animateIn_p0_eq by (rule refl)

lemma observerCallback_p0_eq: "observerCallback_p0 c es h = observerCallback c es h"
  by (induction es arbitrary: h) (simp_all add: animateIn_p0_eq)

lemma effect_p0_eq: "effect_p0 = effect"
  unfolding effect_p0_def effect_def checkAndAnimate_p0_eq by (rule refl)

lemma cleanup_p0_eq: "cleanup_p0 = cleanup"
  by (intro ext) (simp add: cleanup_p0_def cleanup_def)

lemma rerender_p0_eq: "rerender_p0 cfg v l h = rerender cfg v l h"
proof (induction cfg v l h rule: rerender.induct)
  case (1 cfg v l h)
  show ?case
  proof (cases "isVisible h = v \<and> layoutY h = l")
    case True
    then show ?thesis by (simp add: rerender.simps rerender_p0.simps)
  next
    case False
    have "rerender_p0 cfg v l h =
          rerender_p0 cfg (isVisible h) (layoutY h)
            (effect cfg (isVisible h) (layoutY h) (cleanup h))"
      by (subst rerender_p0.simps) (simp only: False if_False effect_p0_eq cleanup_p0_eq)
    also have "\<dots> = rerender cfg (isVisible h) (layoutY h)
                       (effect cfg (isVisible h) (layoutY h) (cleanup h))"
      by (rule "1.IH" [OF False])
    also have "\<dots> = rerender cfg v l h"
      by (subst (2) rerender.simps) (simp only: False if_False)
    finally show ?thesis .
  qed
qed

lemma handle_p0_eq: "handle_p0 cfg ev h = handle cfg ev h"
proof (cases ev)
  case (Intersect es)
  then show ?thesis by (simp add: observerCallback_p0_eq)
next
  case Fire
  show ?thesis unfolding Fire handle_p0.simps handle.simps animateIn_p0_eq by (rule refl)
qed (simp_all add: onLayout_p0_eq checkAndAnimate_p0_eq cleanup_p0_eq)

lemma step_p0_eq: "step_p0 cfg ev h = step cfg ev h"
  unfolding step_p0_def step_def handle_p0_eq rerender_p0_eq by (rule refl)

lemma mount_p0_eq: "mount_p0 cfg = mount cfg"
  unfolding mount_p0_def mount_def effect_p0_eq rerender_p0_eq by (rule refl)

lemma run_from_p0_eq: "run_from_p0 cfg h evs = run_from cfg h evs"
  by (induction evs arbitrary: h) (simp_all add: step_p0_eq)

lemma animValue_at_p0_eq: "animValue_at_p0 d ts t = animValue_at d ts t"
  by (induction ts arbitrary: t) simp_all

text \<open>
  C9. The hook of src/unnamed/part_000 and the hook of src/App.tsx agree on every
  input: for every delay, scroll signal, platform and window height, and every
  sequence of layout, scroll, observer, timer, clock and unmount events, they reach
  the same state, hence the same visibility and the same instants of triggering,
  and they give the same animated value and the same style.
\<close>

theorem variants_agree:
  "run_p0 cfg evs = run cfg evs \<and>
   isVisible (run_p0 cfg evs) = isVisible (run cfg evs) \<and>
   timings (run_p0 cfg evs) = timings (run cfg evs) \<and>
   animValue_p0 cfg h = animValue cfg h \<and>
   animationStyle_p0 v = animationStyle v \<and>
   animationStyle_p0 (animValue_p0 cfg (run_p0 cfg evs)) =
     animationStyle (animValue cfg (run cfg evs))"
proof -
  have r: "run_p0 cfg evs = run cfg evs"
    by (simp add: run_p0_def run_def mount_p0_eq run_from_p0_eq)
  have a: "animValue_p0 cfg h = animValue cfg h" for h
    by (simp add: animValue_p0_def animValue_def animValue_at_p0_eq)
  have s: "animationStyle_p0 v = animationStyle v" for v
    by (simp add: animationStyle_p0_def animationStyle_def)
  show ?thesis by (simp add: r a s)
qed

subsection \<open>The contact form\<close>

text \<open>
  C10. In both variants of the page, submitting the form with an empty email or an
  empty message leaves all five fields as they are, and submitting with both
  non-empty sets all five fields to the empty string.
\<close>

theorem submit_form:
  "(email f = [] \<or> message f = [] \<longrightarrow>
      snd (handleSubmit f) = f \<and> snd (handleSubmit_p0 f) = f) \<and>
   (email f \<noteq> [] \<and> message f \<noteq> [] \<longrightarrow>
      snd (handleSubmit f) =
        \<lparr>name = [], email = [], company = [], budget = [], message = []\<rparr> \<and>
      snd (handleSubmit_p0 f) =
        \<lparr>name = [], email = [], company = [], budget = [], message = []\<rparr>)"
  by (simp add: handleSubmit_def handleSubmit_p0_def)

theorem submit_form_witness:
  "message \<lparr>name = ''Ann'', email = ''a@b.c'', company = ''X'', budget = ''5k'', message = []\<rparr> = [] \<and>
   snd (handleSubmit
     \<lparr>name = ''Ann'', email = ''a@b.c'', company = ''X'', budget = ''5k'', message = []\<rparr>) =
     \<lparr>name = ''Ann'', email = ''a@b.c'', company = ''X'', budget = ''5k'', message = []\<rparr> \<and>
   email \<lparr>name = ''Ann'', email = ''a@b.c'', company = ''X'', budget = ''5k'', message = ''Hi''\<rparr> \<noteq> [] \<and>
   message \<lparr>name = ''Ann'', email = ''a@b.c'', company = ''X'', budget = ''5k'', message = ''Hi''\<rparr> \<noteq> [] \<and>
   snd (handleSubmit
     \<lparr>name = ''Ann'', email = ''a@b.c'', company = ''X'', budget = ''5k'', message = ''Hi''\<rparr>) =
     \<lparr>name = [], email = [], company = [], budget = [], message = []\<rparr>"
  using submit_form [of "\<lparr>name = ''Ann'', email = ''a@b.c'', company = ''X'', budget = ''5k'', message = []\<rparr>"]
    submit_form [of "\<lparr>name = ''Ann'', email = ''a@b.c'', company = ''X'', budget = ''5k'', message = ''Hi''\<rparr>"]
  by simp

end
